theory Spec2Isabelle
  imports Complex_Main "HOL-Library.Word"
begin

unbundle bit_operations_syntax

section \<open>Data model\<close>

text \<open>
  A Python \<open>bytes\<close> object is a list of 8-bit words. Python integers are unbounded and are
  modelled as \<open>int\<close>; lengths, loop counters and bit positions, which the code never lets
  go negative, are \<open>nat\<close>. Exceptions are values of type \<open>error\<close>, returned on the left
  of a sum.
\<close>

type_synonym byte = "8 word"

datatype error = IndexError | FileNotFoundError

section \<open>read_tags.py: the bit codec\<close>

text \<open>
  \<open>unpack_6bit_to_8bit\<close>, lines 123-187. The inner \<open>while buffer_length >= 8\<close> loop is
  \<open>unpack_while\<close>, the outer \<open>for byte in input_bytes\<close> loop is \<open>unpack_for\<close>.
  \<open>new_byte\<close> has been masked with \<open>0xFF\<close> when it is appended to the bytearray, so
  the conversion to a byte loses nothing.
\<close>

function unpack_while :: "int \<Rightarrow> nat \<Rightarrow> byte list \<Rightarrow> int \<times> nat \<times> byte list" where
  "unpack_while bit_buffer buffer_length output_bytes =
     (if buffer_length \<ge> 8 then
        let shift_amount = buffer_length - 8;
            new_byte = drop_bit shift_amount bit_buffer AND 0xFF;
            mask = push_bit shift_amount 1 - 1
        in unpack_while (bit_buffer AND mask) (buffer_length - 8)
             (output_bytes @ [word_of_int new_byte])
      else (bit_buffer, buffer_length, output_bytes))"
  by pat_completeness auto
termination
  by (relation "measure (\<lambda>(bit_buffer, buffer_length, output_bytes). buffer_length)") auto

declare unpack_while.simps [simp del]

fun unpack_for :: "byte list \<Rightarrow> int \<Rightarrow> nat \<Rightarrow> byte list \<Rightarrow> int \<times> nat \<times> byte list" where
  "unpack_for [] bit_buffer buffer_length output_bytes =
     (bit_buffer, buffer_length, output_bytes)"
| "unpack_for (byte # rest) bit_buffer buffer_length output_bytes =
     (let six_bits = uint (byte AND 0x3F);
          bit_buffer = push_bit 6 bit_buffer OR six_bits;
          buffer_length = buffer_length + 6
      in case unpack_while bit_buffer buffer_length output_bytes of
           (bit_buffer, buffer_length, output_bytes) \<Rightarrow>
             unpack_for rest bit_buffer buffer_length output_bytes)"

definition unpack_6bit_to_8bit :: "byte list \<Rightarrow> byte list" where
  "unpack_6bit_to_8bit input_bytes =
     (case unpack_for input_bytes 0 0 [] of
        (bit_buffer, buffer_length, output_bytes) \<Rightarrow> output_bytes)"

subsection \<open>The codec as the specification words it\<close>

text \<open>
  The specification's wording of the codec, kept apart from the code above: the low six
  bits of every input byte, most significant first, form one bit stream; the stream is
  cut into groups of eight; a last group of fewer than eight bits is dropped; every
  group is read as a big-endian number.
\<close>

definition be_value :: "bool list \<Rightarrow> int" where
  "be_value bits = foldl (\<lambda>acc b. 2 * acc + (if b then 1 else 0)) 0 bits"

definition low6_bits :: "byte \<Rightarrow> bool list" where
  "low6_bits byte = map (bit byte) [5, 4, 3, 2, 1, 0]"

definition bit_stream6 :: "byte list \<Rightarrow> bool list" where
  "bit_stream6 input_bytes = concat (map low6_bits input_bytes)"

fun groups_of_8 :: "bool list \<Rightarrow> bool list list" where
  "groups_of_8 bits =
     (if length bits < 8 then [] else take 8 bits # groups_of_8 (drop 8 bits))"

declare groups_of_8.simps [simp del]

text \<open>The bits that remain after the last full group of eight.\<close>

definition leftover :: "bool list \<Rightarrow> bool list" where
  "leftover bits = drop (8 * (length bits div 8)) bits"

definition repack_spec :: "byte list \<Rightarrow> byte list" where
  "repack_spec input_bytes =
     map (\<lambda>g. word_of_int (be_value g)) (groups_of_8 (bit_stream6 input_bytes))"

section \<open>read_tags.py: the field decoder\<close>

text \<open>
  The bit array of \<open>car_number\<close> (lines 214-219) and \<open>car_owner\<close> (lines 259-264):
  for every byte, \<open>(byte >> i) & 1 == 1\<close> for \<open>i\<close> from 7 down to 0.
\<close>

definition byte_bits :: "byte \<Rightarrow> bool list" where
  "byte_bits byte = map (\<lambda>i. drop_bit i byte AND 1 = 1) [7, 6, 5, 4, 3, 2, 1, 0]"

definition to_bit_array :: "byte list \<Rightarrow> bool list" where
  "to_bit_array input_bytes = concat (map byte_bits input_bytes)"

text \<open>
  \<open>bits_to_int\<close>, lines 190-209. \<open>start_bit\<close> and \<open>end_bit\<close> are bit positions of a
  0-based array (the two callers pass 7, 26 and 26, 46), hence natural numbers. The read
  \<open>bit_array[start_bit + i]\<close> raises IndexError past the end of the list; the model
  keeps that branch, and the guard of line 196 is shown below to make it unreachable.
\<close>

fun bits_to_int_for :: "bool list \<Rightarrow> nat \<Rightarrow> nat \<Rightarrow> nat list \<Rightarrow> int \<Rightarrow> error + int" where
  "bits_to_int_for bit_array start_bit slice_len [] number = Inr number"
| "bits_to_int_for bit_array start_bit slice_len (i # rest) number =
     (if start_bit + i < length bit_array then
        (if bit_array ! (start_bit + i) then
           let power = slice_len - 1 - i
           in bits_to_int_for bit_array start_bit slice_len rest (number + push_bit power 1)
         else bits_to_int_for bit_array start_bit slice_len rest number)
      else Inl IndexError)"

definition bits_to_int :: "bool list \<Rightarrow> nat \<Rightarrow> nat \<Rightarrow> error + int" where
  "bits_to_int bit_array start_bit end_bit =
     (if start_bit \<ge> end_bit \<or> end_bit > length bit_array then Inr 0
      else let slice_len = end_bit - start_bit
           in bits_to_int_for bit_array start_bit slice_len [0..<slice_len] 0)"

definition car_number :: "byte list \<Rightarrow> error + int" where
  "car_number input_bytes =
     (let bit_array = to_bit_array input_bytes;
          start_index = 26;
          end_index = 45;
          call_start_bit = start_index;
          call_end_bit = end_index + 1
      in bits_to_int bit_array call_start_bit call_end_bit)"

text \<open>
  The bit numbering of the specification, kept apart from the code: bit 0 is the most
  significant bit of the first byte, so bit \<open>k\<close> is bit \<open>7 - k mod 8\<close> of byte
  \<open>k div 8\<close>. It is only used for positions inside the sequence.
\<close>

definition msb_first_bit :: "byte list \<Rightarrow> nat \<Rightarrow> bool" where
  "msb_first_bit input_bytes k = bit (input_bytes ! (k div 8)) (7 - k mod 8)"

text \<open>
  \<open>decode_c1\<close> and \<open>decode_c2_c4\<close>, lines 236-254. \<open>chr\<close> is only applied to
  65..90, where \<open>char_of\<close> is exact.
\<close>

definition decode_c1 :: "int \<Rightarrow> char" where
  "decode_c1 n1 = (if 0 \<le> n1 \<and> n1 \<le> 25 then char_of (n1 + 65) else CHR ''?'')"

definition decode_c2_c4 :: "int \<Rightarrow> char" where
  "decode_c2_c4 n =
     (if n = 0 then CHR '' ''
      else if 1 \<le> n \<and> n \<le> 26 then char_of (n + 64)
      else CHR ''?'')"

text \<open>
  The mixed base-27 decomposition of \<open>car_owner\<close>, lines 280-300, with the source's
  names; \<open>//\<close> is floor division, as \<open>div\<close> on \<open>int\<close>.
\<close>

definition owner_digits :: "int \<Rightarrow> int \<times> int \<times> int \<times> int" where
  "owner_digits v =
     (let POW_27_3 = 27 ^ 3;
          POW_27_2 = 27 ^ 2;
          POW_27_1 = 27;
          n1 = v div POW_27_3;
          remainder_n1 = v - (n1 * POW_27_3);
          n2 = remainder_n1 div POW_27_2;
          remainder_n2 = remainder_n1 - (n2 * POW_27_2);
          n3 = remainder_n2 div POW_27_1;
          remainder_n3 = remainder_n2 - (n3 * POW_27_1);
          n4 = remainder_n3
      in (n1, n2, n3, n4))"

definition car_owner :: "byte list \<Rightarrow> error + string" where
  "car_owner input_bytes =
     (let bit_array = to_bit_array input_bytes;
          start_index = 7;
          end_index = 25;
          call_start_bit = start_index;
          call_end_bit = end_index + 1
      in case bits_to_int bit_array call_start_bit call_end_bit of
           Inl e \<Rightarrow> Inl e
         | Inr v \<Rightarrow>
             (case owner_digits v of
                (n1, n2, n3, n4) \<Rightarrow>
                  Inr [decode_c1 n1, decode_c2_c4 n2, decode_c2_c4 n3, decode_c2_c4 n4]))"

text \<open>The characters an owner mark may contain: \<open>A\<close> to \<open>Z\<close>, the space and \<open>?\<close>.\<close>

definition owner_char :: "char \<Rightarrow> bool" where
  "owner_char c =
     (c \<in> set ''ABCDEFGHIJKLMNOPQRSTUVWXYZ'' \<or> c = CHR '' '' \<or> c = CHR ''?'')"

section \<open>read_tags.py: the read loop\<close>

text \<open>
  The state the read loop changes: the global \<open>last_tag\<close>, the lines appended to
  \<open>/tmp/tags.log\<close>, and the files written under \<open>/dev/shm\<close> (path and content, in
  order of writing). \<open>last_read\<close> stands for the text that the f-strings print for the
  float \<open>time.time()\<close> of the read.
\<close>

record reader_state =
  last_tag :: string
  tags_log :: "string list"
  shm_files :: "(string \<times> string) list"

fun str_nat :: "nat \<Rightarrow> string" where
  "str_nat n =
     (if n < 10 then [char_of (48 + n)]
      else str_nat (n div 10) @ [char_of (48 + n mod 10)])"

declare str_nat.simps [simp del]

definition str_int :: "int \<Rightarrow> string" where
  "str_int k = (if k < 0 then CHR ''-'' # str_nat (nat (- k)) else str_nat (nat k))"

text \<open>
  Lines 398-406, the part of the loop body that follows the decoding: the log line is
  written first, then \<open>last_tag\<close> is compared.
\<close>

definition store_tag :: "string \<Rightarrow> nat \<Rightarrow> string \<Rightarrow> reader_state \<Rightarrow> reader_state" where
  "store_tag last_read i current_tag st =
     (let st = st\<lparr>tags_log := tags_log st @ [last_read @ '','' @ current_tag @ [CHR 0x0A]]\<rparr>
      in if last_tag st \<noteq> current_tag then
           st\<lparr>last_tag := current_tag,
              shm_files := shm_files st @
                [(''/dev/shm/'' @ last_read @ ''-'' @ str_nat i @ ''.tag'',
                  current_tag @ [CHR 0x0A])]\<rparr>
         else st)"

text \<open>
  Lines 388-406: \<open>for i, raw_packet in enumerate(matches)\<close>. An exception of the
  decoders would leave the loop.
\<close>

fun read_for :: "string \<Rightarrow> nat \<Rightarrow> byte list list \<Rightarrow> reader_state \<Rightarrow> error + reader_state" where
  "read_for last_read i [] st = Inr st"
| "read_for last_read i (raw_packet # rest) st =
     (let unpacked = unpack_6bit_to_8bit raw_packet
      in case car_owner unpacked of
           Inl e \<Rightarrow> Inl e
         | Inr owner \<Rightarrow>
             (case car_number unpacked of
                Inl e \<Rightarrow> Inl e
              | Inr number \<Rightarrow>
                  let current_tag = owner @ '' '' @ str_int number
                  in read_for last_read (Suc i) rest (store_tag last_read i current_tag st)))"

text \<open>Line 372: the state in which the read loop is entered.\<close>

definition initial_state :: reader_state where
  "initial_state = \<lparr>last_tag = [], tags_log = [], shm_files = []\<rparr>"

section \<open>monitor_tag_directory.py\<close>

text \<open>
  The queue directory maps a path to the creation time and the content of the file.
  What the model cannot compute is a parameter: \<open>clock k\<close> is the value of
  \<open>time.time()\<close> in iteration \<open>k\<close> of the loop of lines 80-87, \<open>deliver i\<close> is the
  result of \<open>send_outlook_email\<close> in attempt \<open>i\<close>, and \<open>io_env\<close> says for which paths
  reading or \<open>os.remove\<close> fails with an I/O error. Times are real numbers of seconds.
\<close>

type_synonym filesystem = "string \<rightharpoonup> real \<times> string"

record io_env =
  read_fails :: "string \<Rightarrow> bool"
  remove_fails :: "string \<Rightarrow> bool"

text \<open>\<open>str.strip()\<close>, with the white space characters of the ASCII range.\<close>

definition is_space :: "char \<Rightarrow> bool" where
  "is_space c = (c \<in> set [CHR 0x09, CHR 0x0A, CHR 0x0B, CHR 0x0C, CHR 0x0D,
                           CHR 0x1C, CHR 0x1D, CHR 0x1E, CHR 0x1F, CHR 0x20])"

definition strip :: "string \<Rightarrow> string" where
  "strip s = rev (dropWhile is_space (rev (dropWhile is_space s)))"

text \<open>
  \<open>process_tag_file\<close>, lines 22-53: a file that cannot be read gives \<open>None\<close> and is
  left alone; a file that was read is removed, unless \<open>os.remove\<close> fails, which is
  printed and otherwise ignored.
\<close>

definition process_tag_file :: "io_env \<Rightarrow> filesystem \<Rightarrow> string \<Rightarrow> string option \<times> filesystem" where
  "process_tag_file env fs filepath =
     (case fs filepath of
        None \<Rightarrow> (None, fs)
      | Some (created, file_content) \<Rightarrow>
          if read_fails env filepath then (None, fs)
          else (Some (strip file_content),
                if remove_fails env filepath then fs else fs(filepath := None)))"

text \<open>
  Lines 77-87: the loop that decides \<open>emit\<close>. \<open>os.path.getctime\<close> raises for a path
  that is not there.
\<close>

fun emit_for :: "filesystem \<Rightarrow> (nat \<Rightarrow> real) \<Rightarrow> nat \<Rightarrow> string list \<Rightarrow> bool \<Rightarrow> error + bool" where
  "emit_for fs clock k [] emit = Inr emit"
| "emit_for fs clock k (file_path # rest) emit =
     (case fs file_path of
        None \<Rightarrow> Inl FileNotFoundError
      | Some (creation_timestamp, file_content) \<Rightarrow>
          if clock k - creation_timestamp < 300 then emit_for fs clock (Suc k) rest False
          else emit_for fs clock (Suc k) rest True)"

text \<open>
  Lines 104-120: the loop that composes the report. The report is kept as its rows
  (creation time and stripped content) and the tag count; the HTML around them is left out.
\<close>

fun compose_for ::
  "io_env \<Rightarrow> string list \<Rightarrow> filesystem \<Rightarrow> (real \<times> string) list \<Rightarrow> nat \<Rightarrow>
   error + (filesystem \<times> (real \<times> string) list \<times> nat)" where
  "compose_for env [] fs body total_tags = Inr (fs, body, total_tags)"
| "compose_for env (file_path # rest) fs body total_tags =
     (case fs file_path of
        None \<Rightarrow> Inl FileNotFoundError
      | Some (creation_timestamp, file_content) \<Rightarrow>
          (case process_tag_file env fs file_path of
             (None, fs') \<Rightarrow> compose_for env rest fs' body total_tags
           | (Some processed_content, fs') \<Rightarrow>
               compose_for env rest fs'
                 (body @ [(creation_timestamp, processed_content)]) (total_tags + 1)))"

text \<open>
  Lines 132-140: \<open>for i in range(5)\<close>. The result is \<open>sent\<close>, the number of calls of
  \<open>send_outlook_email\<close> and the seconds slept.
\<close>

fun send_for :: "(nat \<Rightarrow> bool) \<Rightarrow> nat list \<Rightarrow> nat \<Rightarrow> nat \<Rightarrow> bool \<times> nat \<times> nat" where
  "send_for deliver [] attempts slept = (False, attempts, slept)"
| "send_for deliver (i # rest) attempts slept =
     (if deliver i then (True, Suc attempts, slept)
      else send_for deliver rest (Suc attempts) (slept + 10 * i))"

record cycle =
  queue_after :: filesystem
  flushed :: bool
  report_rows :: "(real \<times> string) list"
  tag_count :: nat
  delivered :: bool
  attempts_made :: nat

text \<open>
  One pass of the \<open>while True\<close> loop of \<open>monitor_directory\<close>, lines 66-147, on the
  listing \<open>tag_files\<close> that \<open>glob.glob\<close> returned.
\<close>

definition monitor_cycle ::
  "io_env \<Rightarrow> (nat \<Rightarrow> real) \<Rightarrow> (nat \<Rightarrow> bool) \<Rightarrow> string list \<Rightarrow> filesystem \<Rightarrow> error + cycle" where
  "monitor_cycle env clock deliver tag_files fs =
     (if tag_files \<noteq> [] then
        (case emit_for fs clock 0 tag_files False of
           Inl e \<Rightarrow> Inl e
         | Inr emit \<Rightarrow>
             if emit then
               (case compose_for env tag_files fs [] 0 of
                  Inl e \<Rightarrow> Inl e
                | Inr (fs', body, total_tags) \<Rightarrow>
                    (case send_for deliver [0..<5] 0 0 of
                       (sent, attempts, slept) \<Rightarrow>
                         Inr \<lparr>queue_after = fs', flushed = True, report_rows = body,
                              tag_count = total_tags, delivered = sent,
                              attempts_made = attempts\<rparr>))
             else
               Inr \<lparr>queue_after = fs, flushed = False, report_rows = [], tag_count = 0,
                    delivered = False, attempts_made = 0\<rparr>)
      else
        Inr \<lparr>queue_after = fs, flushed = False, report_rows = [], tag_count = 0,
             delivered = False, attempts_made = 0\<rparr>)"

section \<open>Helper lemmas\<close>

lemma bits_to_int_for_ok:
  "\<forall>i\<in>set idx. start_bit + i < length bit_array \<Longrightarrow>
   \<exists>v. bits_to_int_for bit_array start_bit slice_len idx number = Inr v \<and> number \<le> v"
proof (induction idx arbitrary: number)
  case Nil
  then show ?case by simp
next
  case (Cons i rest)
  have "\<exists>v. bits_to_int_for bit_array start_bit slice_len rest (number + push_bit (slice_len - 1 - i) 1) = Inr v
           \<and> number + push_bit (slice_len - 1 - i) 1 \<le> v"
    using Cons by simp
  moreover have "\<exists>v. bits_to_int_for bit_array start_bit slice_len rest number = Inr v \<and> number \<le> v"
    using Cons by simp
  moreover have "\<And>v. number + push_bit (slice_len - 1 - i) 1 \<le> v \<Longrightarrow> number \<le> v"
  proof -
    fix v :: int
    assume a: "number + push_bit (slice_len - 1 - i) 1 \<le> v"
    have "(0::int) \<le> push_bit (slice_len - 1 - i) 1" by (simp add: push_bit_eq_mult)
    with a show "number \<le> v" by linarith
  qed
  ultimately show ?case using Cons.prems by (auto simp: Let_def)
qed

lemma bits_to_int_no_error: "\<exists>v. bits_to_int bit_array start_bit end_bit = Inr v \<and> 0 \<le> v"
proof (cases "start_bit \<ge> end_bit \<or> end_bit > length bit_array")
  case True
  then show ?thesis by (simp add: bits_to_int_def)
next
  case False
  then have "\<forall>i\<in>set [0..<end_bit - start_bit]. start_bit + i < length bit_array" by auto
  from bits_to_int_for_ok [OF this, of "end_bit - start_bit" 0] False
  show ?thesis by (simp add: bits_to_int_def Let_def)
qed

lemma bits_to_int_for_zeros:
  "\<forall>i\<in>set idx. start_bit + i < n \<Longrightarrow>
   bits_to_int_for (replicate n False) start_bit slice_len idx number = Inr number"
  by (induction idx arbitrary: number) auto

lemma decode_c1_owner_char: "owner_char (decode_c1 n)"
proof (cases "0 \<le> n \<and> n \<le> 25")
  case True
  then have "n \<in> {0..25}" by simp
  also have "{0..25::int} = set [0..25]" by simp
  finally have "n \<in> set [0..25]" .
  then show ?thesis
    by (simp add: upto.simps decode_c1_def owner_char_def) (elim disjE; simp add: char_of_eq_iff)
next
  case False
  then show ?thesis by (auto simp: decode_c1_def owner_char_def)
qed

lemma decode_c2_c4_owner_char: "owner_char (decode_c2_c4 n)"
proof (cases "1 \<le> n \<and> n \<le> 26")
  case True
  then have "n \<in> {1..26}" by simp
  also have "{1..26::int} = set [1..26]" by simp
  finally have "n \<in> set [1..26]" .
  then show ?thesis
    by (simp add: upto.simps decode_c2_c4_def owner_char_def) (elim disjE; simp add: char_of_eq_iff)
next
  case False
  then show ?thesis by (auto simp: decode_c2_c4_def owner_char_def)
qed

lemma emit_for_last:
  "set files \<subseteq> dom fs \<Longrightarrow> fs p = Some (ct, c) \<Longrightarrow>
   emit_for fs clock k (files @ [p]) emit = Inr (\<not> clock (k + length files) - ct < 300)"
proof (induction files arbitrary: k emit)
  case Nil
  then show ?case by simp
next
  case (Cons q rest)
  then obtain ct' c' where q: "fs q = Some (ct', c')" by fastforce
  have "emit_for fs clock (Suc k) (rest @ [p]) e = Inr (\<not> clock (Suc k + length rest) - ct < 300)" for e
    using Cons by simp
  then show ?case using q by simp
qed

lemma emit_for_total:
  "set tag_files \<subseteq> dom fs \<Longrightarrow> \<exists>e. emit_for fs clock k tag_files emit = Inr e"
proof (induction tag_files arbitrary: k emit)
  case Nil
  then show ?case by simp
next
  case (Cons q rest)
  then obtain ct c where q: "fs q = Some (ct, c)" by fastforce
  have "\<exists>e. emit_for fs clock (Suc k) rest e' = Inr e" for e'
    using Cons by simp
  then show ?case using q by simp
qed

lemma send_for_result:
  "send_for deliver idx attempts slept = (sent, n, s) \<Longrightarrow>
     sent = (\<exists>i\<in>set idx. deliver i) \<and> n \<le> attempts + length idx \<and> (\<not> sent \<longrightarrow> n = attempts + length idx)"
proof (induction idx arbitrary: attempts slept)
  case Nil
  then show ?case by simp
next
  case (Cons i rest)
  show ?case
  proof (cases "deliver i")
    case True
    then show ?thesis using Cons.prems by auto
  next
    case False
    then have "send_for deliver rest (Suc attempts) (slept + 10 * i) = (sent, n, s)"
      using Cons.prems by simp
    from Cons.IH [OF this] False show ?thesis by simp
  qed
qed

lemma process_tag_file_fs:
  "fs q = Some (ct, c) \<Longrightarrow>
   snd (process_tag_file env fs q) =
     (if read_fails env q \<or> remove_fails env q then fs else fs(q := None))"
  by (simp add: process_tag_file_def)

lemma compose_for_step:
  "fs q = Some (ct, c) \<Longrightarrow>
   \<exists>b t. compose_for env (q # rest) fs body total_tags =
          compose_for env rest (snd (process_tag_file env fs q)) b t"
  by (cases "process_tag_file env fs q"; cases "fst (process_tag_file env fs q)") auto

lemma compose_for_deletes:
  "compose_for env tag_files fs body total_tags = Inr (fs', body', total') \<Longrightarrow>
    (\<forall>p. fs p = None \<longrightarrow> fs' p = None) \<and>
    (\<forall>p. p \<notin> set tag_files \<longrightarrow> fs' p = fs p) \<and>
    (\<forall>p\<in>set tag_files. \<not> read_fails env p \<and> \<not> remove_fails env p \<longrightarrow> fs' p = None)"
proof (induction tag_files arbitrary: fs body total_tags)
  case Nil
  then show ?case by simp
next
  case (Cons q rest)
  show ?case
  proof (cases "fs q")
    case None
    then show ?thesis using Cons.prems by simp
  next
    case (Some v)
    then obtain ct c where q: "fs q = Some (ct, c)" by (cases v) simp
    define fs1 where "fs1 = snd (process_tag_file env fs q)"
    have fs1: "fs1 = (if read_fails env q \<or> remove_fails env q then fs else fs(q := None))"
      unfolding fs1_def using process_tag_file_fs [of fs q ct c env] q by simp
    obtain b t where "compose_for env (q # rest) fs body total_tags = compose_for env rest fs1 b t"
      unfolding fs1_def using compose_for_step [of fs q ct c env rest body total_tags] q by blast
    then have "compose_for env rest fs1 b t = Inr (fs', body', total')"
      using Cons.prems by simp
    from Cons.IH [OF this]
    have ih1: "\<And>p. fs1 p = None \<Longrightarrow> fs' p = None"
      and ih2: "\<And>p. p \<notin> set rest \<Longrightarrow> fs' p = fs1 p"
      and ih3: "\<And>p. p \<in> set rest \<Longrightarrow> \<not> read_fails env p \<Longrightarrow> \<not> remove_fails env p \<Longrightarrow> fs' p = None"
      by blast+
    have a: "\<forall>p. fs p = None \<longrightarrow> fs' p = None"
      using ih1 fs1 by simp
    have b: "\<forall>p. p \<notin> set (q # rest) \<longrightarrow> fs' p = fs p"
      using ih2 fs1 by simp
    have c: "\<forall>p\<in>set (q # rest). \<not> read_fails env p \<and> \<not> remove_fails env p \<longrightarrow> fs' p = None"
    proof (intro ballI impI)
      fix p assume p: "p \<in> set (q # rest)" and ok: "\<not> read_fails env p \<and> \<not> remove_fails env p"
      show "fs' p = None"
      proof (cases "p = q")
        case True
        then have "fs1 p = None" using fs1 ok by simp
        then show ?thesis by (rule ih1)
      next
        case False
        then have "p \<in> set rest" using p by simp
        then show ?thesis using ok ih3 by blast
      qed
    qed
    from a b c show ?thesis by blast
  qed
qed

lemma compose_for_total:
  "distinct tag_files \<Longrightarrow> set tag_files \<subseteq> dom fs \<Longrightarrow>
   \<exists>res. compose_for env tag_files fs body total_tags = Inr res"
proof (induction tag_files arbitrary: fs body total_tags)
  case Nil
  then show ?case by simp
next
  case (Cons q rest)
  then obtain ct c where q: "fs q = Some (ct, c)" by fastforce
  define fs1 where "fs1 = snd (process_tag_file env fs q)"
  have fs1: "fs1 = (if read_fails env q \<or> remove_fails env q then fs else fs(q := None))"
    unfolding fs1_def using process_tag_file_fs [of fs q ct c env] q by simp
  obtain b t where step: "compose_for env (q # rest) fs body total_tags = compose_for env rest fs1 b t"
    unfolding fs1_def using compose_for_step [of fs q ct c env rest body total_tags] q by blast
  have "q \<notin> set rest" "set rest \<subseteq> dom fs" "distinct rest" using Cons.prems by auto
  then have "set rest \<subseteq> dom fs1" unfolding fs1 by auto
  with \<open>distinct rest\<close> have "\<exists>res. compose_for env rest fs1 b t = Inr res"
    by (rule Cons.IH)
  then show ?case using step by simp
qed

subsection \<open>The bit codec regroups the bit stream\<close>

lemma foldl_be:
  "foldl (\<lambda>acc b. 2 * acc + (if b then 1 else 0)) a bits =
     a * 2 ^ length bits + foldl (\<lambda>acc b. 2 * acc + (if b then 1 else 0)) (0::int) bits"
proof -
  define f :: "int \<Rightarrow> bool \<Rightarrow> int" where "f = (\<lambda>acc b. 2 * acc + (if b then 1 else 0))"
  have "foldl f a bits = a * 2 ^ length bits + foldl f 0 bits"
  proof (induction bits arbitrary: a)
    case Nil
    then show ?case by simp
  next
    case (Cons b bits)
    have "foldl f a (b # bits) = f a b * 2 ^ length bits + foldl f 0 bits"
      using Cons.IH [of "f a b"] by simp
    moreover have "foldl f 0 (b # bits) = f 0 b * 2 ^ length bits + foldl f 0 bits"
      using Cons.IH [of "f 0 b"] by simp
    moreover have "f a b = 2 * a + f 0 b" by (simp add: f_def)
    ultimately show ?case by (simp add: algebra_simps)
  qed
  then show ?thesis by (simp add: f_def)
qed

lemma be_value_Nil: "be_value [] = 0"
  by (simp add: be_value_def)

lemma be_value_Cons: "be_value (b # bits) = (if b then 2 ^ length bits else 0) + be_value bits"
proof -
  have "be_value (b # bits) = foldl (\<lambda>acc b. 2 * acc + (if b then 1 else 0)) (if b then 1 else 0) bits"
    by (simp add: be_value_def)
  also have "\<dots> = (if b then 1 else 0) * 2 ^ length bits + be_value bits"
    unfolding be_value_def by (rule foldl_be)
  finally show ?thesis by simp
qed

lemma be_value_append: "be_value (xs @ ys) = be_value xs * 2 ^ length ys + be_value ys"
  unfolding be_value_def foldl_append by (rule foldl_be)

lemma be_value_nonneg: "0 \<le> be_value bits"
  by (induction bits) (simp_all add: be_value_Nil be_value_Cons)

lemma be_value_less: "be_value bits < 2 ^ length bits"
proof (induction bits)
  case Nil
  then show ?case by (simp add: be_value_Nil)
next
  case (Cons b bits)
  have p: "(0::int) < 2 ^ length bits" by simp
  have "be_value bits < 2 * 2 ^ length bits" using Cons p by linarith
  moreover have "2 ^ length bits + be_value bits < 2 * 2 ^ length bits" using Cons by linarith
  ultimately show ?case by (simp add: be_value_Cons)
qed

lemma or_low_bits:
  fixes x six :: int
  assumes "0 \<le> six" "six < 2 ^ n"
  shows "push_bit n x OR six = x * 2 ^ n + six"
proof -
  have "take_bit n six = six" using assms by (simp add: take_bit_int_eq_self)
  then have "push_bit n x OR six = concat_bit n six x"
    by (simp add: concat_bit_def or.commute)
  then show ?thesis by (simp add: concat_bit_eq push_bit_eq_mult \<open>take_bit n six = six\<close>)
qed

lemma six_bits_value: "uint (byte AND 0x3F) = be_value (low6_bits byte)" for byte :: byte
proof -
  have m: "(0x3F :: byte) = mask 6" by (simp add: mask_eq_exp_minus_1)
  have "uint (byte AND 0x3F) = uint (take_bit 6 byte)"
    unfolding m by (simp add: take_bit_eq_mask)
  also have "\<dots> = take_bit 6 (uint byte)"
    by (rule unsigned_take_bit_eq)
  also have "\<dots> = (\<Sum>k = 0..<6. push_bit k (of_bool (bit (uint byte) k)))"
    by (rule take_bit_sum)
  also have "\<dots> = be_value (low6_bits byte)"
  proof -
    have "{0..<6::nat} = {0, 1, 2, 3, 4, 5}" by auto
    then show ?thesis
      by (simp add: low6_bits_def be_value_def bit_uint_iff push_bit_eq_mult)
  qed
  finally show ?thesis .
qed

lemma length_leftover: "length (leftover bits) = length bits mod 8"
proof -
  have "length bits - 8 * (length bits div 8) = length bits mod 8"
    by (simp add: minus_mult_div_eq_mod)
  then show ?thesis by (simp add: leftover_def)
qed

lemma leftover_short: "length bits < 8 \<Longrightarrow> leftover bits = bits"
  by (simp add: leftover_def)

lemma div8_step: "8 \<le> (n::nat) \<Longrightarrow> n div 8 = Suc ((n - 8) div 8)"
proof -
  assume "8 \<le> n"
  then have "n = (n - 8) + 1 * 8" by simp
  then have "n div 8 = ((n - 8) + 1 * 8) div 8" by simp
  also have "\<dots> = (n - 8) div 8 + 1" by simp
  finally show ?thesis by simp
qed

lemma leftover_drop: "8 \<le> length bits \<Longrightarrow> leftover (drop 8 bits) = leftover bits"
proof -
  assume a: "8 \<le> length bits"
  have "length bits div 8 = Suc ((length bits - 8) div 8)" using a by (rule div8_step)
  then show ?thesis by (simp add: leftover_def add.commute)
qed

lemma groups_of_8_short: "length bits < 8 \<Longrightarrow> groups_of_8 bits = []"
  by (subst groups_of_8.simps) simp

lemma groups_of_8_long:
  "8 \<le> length bits \<Longrightarrow> groups_of_8 bits = take 8 bits # groups_of_8 (drop 8 bits)"
  by (subst groups_of_8.simps) simp

lemma length_groups_of_8: "length (groups_of_8 bits) = length bits div 8"
proof (induction bits rule: groups_of_8.induct)
  case (1 bits)
  show ?case
  proof (cases "length bits < 8")
    case True
    then show ?thesis by (simp add: groups_of_8_short)
  next
    case False
    then have 8: "8 \<le> length bits" by simp
    have "length (groups_of_8 (drop 8 bits)) = (length bits - 8) div 8"
      using 1 [OF False] by simp
    then show ?thesis using 8 by (simp add: groups_of_8_long div8_step [OF 8])
  qed
qed

lemma groups_of_8_append:
  "groups_of_8 (xs @ ys) = groups_of_8 xs @ groups_of_8 (leftover xs @ ys)"
proof (induction xs rule: groups_of_8.induct)
  case (1 xs)
  show ?case
  proof (cases "length xs < 8")
    case True
    then show ?thesis by (simp add: groups_of_8_short leftover_short)
  next
    case False
    then have 8: "8 \<le> length xs" by simp
    have ih: "groups_of_8 (drop 8 xs @ ys) =
        groups_of_8 (drop 8 xs) @ groups_of_8 (leftover xs @ ys)"
      using 1 [OF False] by (simp add: leftover_drop [OF 8])
    have "groups_of_8 (xs @ ys) = take 8 (xs @ ys) # groups_of_8 (drop 8 (xs @ ys))"
      using 8 by (intro groups_of_8_long) simp
    also have "\<dots> = take 8 xs # groups_of_8 (drop 8 xs @ ys)"
      using 8 by simp
    also have "\<dots> = (take 8 xs # groups_of_8 (drop 8 xs)) @ groups_of_8 (leftover xs @ ys)"
      by (simp only: ih append_Cons)
    also have "take 8 xs # groups_of_8 (drop 8 xs) = groups_of_8 xs"
      using 8 by (simp only: groups_of_8_long)
    finally show ?thesis .
  qed
qed

lemma unpack_while_step:
  assumes "8 \<le> length r"
  shows "unpack_while (be_value r) (length r) out =
         unpack_while (be_value (drop 8 r)) (length (drop 8 r))
           (out @ [word_of_int (be_value (take 8 r))])"
proof -
  define s where "s = length r - 8"
  define H where "H = be_value (take 8 r)"
  define L where "L = be_value (drop 8 r)"
  have len: "length (drop 8 r) = s" by (simp add: s_def)
  have "be_value r = be_value (take 8 r @ drop 8 r)" by simp
  also have "\<dots> = H * 2 ^ s + L"
    by (simp only: be_value_append len H_def L_def)
  finally have v: "be_value r = H * 2 ^ s + L" .
  have L: "0 \<le> L" "L < 2 ^ s"
    using be_value_nonneg [of "drop 8 r"] be_value_less [of "drop 8 r"]
    by (simp_all only: L_def len)
  have "length (take 8 r) = 8" using assms by simp
  then have H: "0 \<le> H" "H < 2 ^ 8"
    using be_value_nonneg [of "take 8 r"] be_value_less [of "take 8 r"]
    by (simp_all only: H_def)
  have d: "drop_bit s (be_value r) = H"
    using L by (simp add: v drop_bit_eq_div)
  have "(0xFF :: int) = mask 8" by (simp add: mask_eq_exp_minus_1)
  then have "H AND 0xFF = take_bit 8 H" by (simp only: take_bit_eq_mask)
  also have "\<dots> = H" using H by (simp add: take_bit_int_eq_self)
  finally have nb: "drop_bit s (be_value r) AND 0xFF = H" using d by simp
  have "be_value r AND (push_bit s 1 - 1) = take_bit s (be_value r)"
    by (simp add: take_bit_eq_mask mask_eq_exp_minus_1)
  also have "\<dots> = L" using L by (simp add: v take_bit_eq_mod)
  finally have m: "be_value r AND (push_bit s 1 - 1) = L" .
  have "unpack_while (be_value r) (length r) out =
        unpack_while (be_value r AND (push_bit s 1 - 1)) s
          (out @ [word_of_int (drop_bit s (be_value r) AND 0xFF)])"
    using assms by (subst unpack_while.simps) (simp only: Let_def s_def if_True)
  then show ?thesis by (simp only: nb m len H_def L_def)
qed

lemma unpack_while_spec:
  "unpack_while (be_value r) (length r) out =
     (be_value (leftover r), length (leftover r),
      out @ map (\<lambda>g. word_of_int (be_value g)) (groups_of_8 r))"
proof (induction r arbitrary: out rule: groups_of_8.induct)
  case (1 r)
  show ?case
  proof (cases "length r < 8")
    case True
    then have "unpack_while (be_value r) (length r) out = (be_value r, length r, out)"
      by (subst unpack_while.simps) simp
    then show ?thesis using True by (simp add: groups_of_8_short leftover_short)
  next
    case False
    then have 8: "8 \<le> length r" by simp
    have "unpack_while (be_value r) (length r) out =
          unpack_while (be_value (drop 8 r)) (length (drop 8 r))
            (out @ [word_of_int (be_value (take 8 r))])"
      using 8 by (rule unpack_while_step)
    also have "\<dots> = (be_value (leftover (drop 8 r)), length (leftover (drop 8 r)),
        (out @ [word_of_int (be_value (take 8 r))]) @
          map (\<lambda>g. word_of_int (be_value g)) (groups_of_8 (drop 8 r)))"
      using False by (rule 1)
    also have "\<dots> = (be_value (leftover r), length (leftover r),
        out @ map (\<lambda>g. word_of_int (be_value g)) (groups_of_8 r))"
      by (simp add: leftover_drop [OF 8] groups_of_8_long [OF 8])
    finally show ?thesis .
  qed
qed

lemma low6_value_bounds:
  "0 \<le> uint (byte AND 0x3F)" "uint (byte AND 0x3F) < 2 ^ 6" for byte :: byte
proof -
  have "length (low6_bits byte) = 6" by (simp add: low6_bits_def)
  then show "0 \<le> uint (byte AND 0x3F)" "uint (byte AND 0x3F) < 2 ^ 6"
    using be_value_nonneg [of "low6_bits byte"] be_value_less [of "low6_bits byte"]
    by (simp_all only: six_bits_value)
qed

lemma buffer_push:
  "push_bit 6 (be_value r) OR uint (byte AND 0x3F) = be_value (r @ low6_bits byte)"
  for byte :: byte
proof -
  have "length (low6_bits byte) = 6" by (simp add: low6_bits_def)
  then have "be_value (r @ low6_bits byte) = be_value r * 2 ^ 6 + uint (byte AND 0x3F)"
    by (simp only: be_value_append six_bits_value)
  then show ?thesis
    by (simp only: or_low_bits [OF low6_value_bounds])
qed

lemma unpack_for_Cons:
  "unpack_for (byte # rest) (be_value r) (length r) out =
   unpack_for rest (be_value (leftover (r @ low6_bits byte)))
     (length (leftover (r @ low6_bits byte)))
     (out @ map (\<lambda>g. word_of_int (be_value g)) (groups_of_8 (r @ low6_bits byte)))"
proof -
  have len: "length r + 6 = length (r @ low6_bits byte)" by (simp add: low6_bits_def)
  have "unpack_for (byte # rest) (be_value r) (length r) out =
      (case unpack_while (push_bit 6 (be_value r) OR uint (byte AND 0x3F)) (length r + 6) out of
         (bit_buffer, buffer_length, output_bytes) \<Rightarrow>
           unpack_for rest bit_buffer buffer_length output_bytes)"
    by (simp only: unpack_for.simps Let_def)
  also have "\<dots> = (case unpack_while (be_value (r @ low6_bits byte))
          (length (r @ low6_bits byte)) out of
         (bit_buffer, buffer_length, output_bytes) \<Rightarrow>
           unpack_for rest bit_buffer buffer_length output_bytes)"
    by (simp only: buffer_push len)
  finally show ?thesis by (simp only: unpack_while_spec prod.case)
qed

lemma unpack_for_spec:
  "length r < 8 \<Longrightarrow>
   snd (snd (unpack_for input_bytes (be_value r) (length r) out)) =
     out @ map (\<lambda>g. word_of_int (be_value g)) (groups_of_8 (r @ bit_stream6 input_bytes))"
proof (induction input_bytes arbitrary: r out)
  case Nil
  then show ?case by (simp add: bit_stream6_def groups_of_8_short)
next
  case (Cons byte rest)
  define r' where "r' = r @ low6_bits byte"
  have lo: "length (leftover r') < 8" by (simp add: length_leftover)
  have "snd (snd (unpack_for (byte # rest) (be_value r) (length r) out)) =
        snd (snd (unpack_for rest (be_value (leftover r')) (length (leftover r'))
          (out @ map (\<lambda>g. word_of_int (be_value g)) (groups_of_8 r'))))"
    by (simp only: unpack_for_Cons r'_def)
  also have "\<dots> = (out @ map (\<lambda>g. word_of_int (be_value g)) (groups_of_8 r')) @
      map (\<lambda>g. word_of_int (be_value g)) (groups_of_8 (leftover r' @ bit_stream6 rest))"
    using lo by (rule Cons.IH)
  also have "\<dots> = out @ map (\<lambda>g. word_of_int (be_value g)) (groups_of_8 (r' @ bit_stream6 rest))"
    by (simp add: groups_of_8_append [of r'])
  also have "r' @ bit_stream6 rest = r @ bit_stream6 (byte # rest)"
    by (simp add: r'_def bit_stream6_def)
  finally show ?case .
qed

lemma length_bit_stream6: "length (bit_stream6 input_bytes) = 6 * length input_bytes"
  by (induction input_bytes) (simp_all add: bit_stream6_def low6_bits_def)

subsection \<open>The value that bits_to_int extracts\<close>

lemma bits_to_int_for_value:
  "start_bit + n \<le> length bit_array \<Longrightarrow> k \<le> n \<Longrightarrow>
   bits_to_int_for bit_array start_bit n [k..<n] number =
     Inr (number + be_value (take (n - k) (drop (start_bit + k) bit_array)))"
proof (induction "n - k" arbitrary: k number)
  case 0
  then show ?case by (simp add: be_value_Nil)
next
  case (Suc d)
  then have kn: "k < n" and d: "d = n - Suc k" by simp_all
  have idx: "start_bit + k < length bit_array" using kn Suc.prems by simp
  have upt: "[k..<n] = k # [Suc k..<n]" using kn by (simp add: upt_conv_Cons)
  have nk: "n - k = Suc (n - Suc k)" using kn by simp
  have sl: "drop (start_bit + k) bit_array =
      bit_array ! (start_bit + k) # drop (start_bit + Suc k) bit_array"
    using idx by (simp add: Cons_nth_drop_Suc)
  have len: "length (take (n - Suc k) (drop (start_bit + Suc k) bit_array)) = n - Suc k"
    using Suc.prems kn by simp
  have val: "be_value (take (n - k) (drop (start_bit + k) bit_array)) =
      (if bit_array ! (start_bit + k) then 2 ^ (n - Suc k) else 0) +
      be_value (take (n - Suc k) (drop (start_bit + Suc k) bit_array))"
    by (simp only: nk sl take_Suc_Cons be_value_Cons len)
  have ih: "bits_to_int_for bit_array start_bit n [Suc k..<n] m =
      Inr (m + be_value (take (n - Suc k) (drop (start_bit + Suc k) bit_array)))" for m
    using Suc.hyps(1) [OF d] Suc.prems(1) kn by simp
  have pw: "n - 1 - k = n - Suc k" by simp
  show ?case
    unfolding upt val
    by (simp add: idx ih Let_def pw push_bit_eq_mult)
qed

lemma bits_to_int_value:
  "start_bit < end_bit \<Longrightarrow> end_bit \<le> length bit_array \<Longrightarrow>
   bits_to_int bit_array start_bit end_bit =
     Inr (be_value (take (end_bit - start_bit) (drop start_bit bit_array)))"
  using bits_to_int_for_value [of start_bit "end_bit - start_bit" bit_array 0 0]
  by (simp add: bits_to_int_def Let_def)

lemma length_byte_bits: "length (byte_bits byte) = 8"
  by (simp add: byte_bits_def)

lemma length_to_bit_array: "length (to_bit_array input_bytes) = 8 * length input_bytes"
  by (induction input_bytes) (simp_all add: to_bit_array_def length_byte_bits)

lemma byte_bits_nth: "k < 8 \<Longrightarrow> byte_bits byte ! k = bit byte (7 - k)"
proof -
  assume "k < 8"
  then have "k \<in> {0, 1, 2, 3, 4, 5, 6, 7}" by auto
  then show ?thesis
    by (auto simp: byte_bits_def bit_iff_and_drop_bit_eq_1)
qed

lemma to_bit_array_nth:
  "k < 8 * length input_bytes \<Longrightarrow> to_bit_array input_bytes ! k = msb_first_bit input_bytes k"
proof (induction input_bytes arbitrary: k)
  case Nil
  then show ?case by simp
next
  case (Cons byte rest)
  have app: "to_bit_array (byte # rest) = byte_bits byte @ to_bit_array rest"
    by (simp add: to_bit_array_def)
  show ?case
  proof (cases "k < 8")
    case True
    then show ?thesis
      by (simp add: app nth_append length_byte_bits byte_bits_nth msb_first_bit_def)
  next
    case False
    then have k8: "8 \<le> k" by simp
    then have dv: "k div 8 = Suc ((k - 8) div 8)" by (rule div8_step)
    have "k mod 8 = (k - 8 + 8) mod 8" using k8 by simp
    also have "\<dots> = (k - 8) mod 8" by (rule mod_add_self2)
    finally have md: "(k - 8) mod 8 = k mod 8" by simp
    have "k - 8 < 8 * length rest" using Cons.prems k8 by simp
    then have "to_bit_array rest ! (k - 8) = msb_first_bit rest (k - 8)" by (rule Cons.IH)
    then show ?thesis using False
      by (simp add: app nth_append length_byte_bits msb_first_bit_def dv md)
  qed
qed

lemma slice_of_bit_array:
  "a + n \<le> 8 * length input_bytes \<Longrightarrow>
   take n (drop a (to_bit_array input_bytes)) = map (msb_first_bit input_bytes) [a..<a + n]"
  by (rule nth_equalityI) (simp_all add: length_to_bit_array to_bit_array_nth)

subsection \<open>The read loop never raises\<close>

lemma car_number_no_error: "\<exists>v. car_number input_bytes = Inr v"
  using bits_to_int_no_error [of "to_bit_array input_bytes" 26 46]
  by (auto simp: car_number_def)

lemma car_owner_no_error: "\<exists>s. car_owner input_bytes = Inr s \<and> s \<noteq> []"
proof -
  obtain v where "bits_to_int (to_bit_array input_bytes) 7 26 = Inr v"
    using bits_to_int_no_error by blast
  then show ?thesis by (simp add: car_owner_def Let_def split: prod.splits)
qed

lemma read_for_returns: "\<exists>st'. read_for last_read i matches st = Inr st'"
proof (induction matches arbitrary: i st)
  case Nil
  then show ?case by simp
next
  case (Cons raw_packet rest)
  obtain owner where o: "car_owner (unpack_6bit_to_8bit raw_packet) = Inr owner"
    using car_owner_no_error by blast
  obtain number where n: "car_number (unpack_6bit_to_8bit raw_packet) = Inr number"
    using car_number_no_error by blast
  show ?case using Cons.IH by (simp add: o n Let_def)
qed

lemma read_for_same_packet_twice:
  "\<exists>st'. read_for last_read 0 [raw_packet, raw_packet] initial_state = Inr st' \<and>
     length (shm_files st') = 1 \<and> length (tags_log st') = 2"
proof -
  obtain owner where o: "car_owner (unpack_6bit_to_8bit raw_packet) = Inr owner" and "owner \<noteq> []"
    using car_owner_no_error by blast
  obtain number where n: "car_number (unpack_6bit_to_8bit raw_packet) = Inr number"
    using car_number_no_error by blast
  show ?thesis
    using \<open>owner \<noteq> []\<close> by (simp add: o n Let_def store_tag_def initial_state_def)
qed

section \<open>The claims\<close>

subsection \<open>C1: when queue entries are deleted\<close>

text \<open>
  C1 (as stated, refuted): queue-entry files would be deleted if and only if some delivery
  attempt succeeds. Here one entry, 400 seconds old, is flushed; all 5 attempts fail
  (\<open>delivered = False\<close>, \<open>attempts_made = 5\<close>), and the queue is empty afterwards.
\<close>

theorem C1_all_attempts_fail_counterexample:
  "monitor_cycle \<lparr>read_fails = (\<lambda>p. False), remove_fails = (\<lambda>p. False)\<rparr>
     (\<lambda>k. 1762000400) (\<lambda>i. False)
     [''/dev/shm/1762000000.0-0.tag'']
     [''/dev/shm/1762000000.0-0.tag'' \<mapsto> (1762000000, ''ABCD 123'' @ [CHR 0x0A])]
   = Inr \<lparr>queue_after = Map.empty, flushed = True,
           report_rows = [(1762000000, ''ABCD 123'')], tag_count = 1,
           delivered = False, attempts_made = 5\<rparr>"
  by (simp add: monitor_cycle_def process_tag_file_def strip_def is_space_def upt_rec)

text \<open>
  C1 (amended): queue entries are consumed when the batch is flushed, not on confirmed
  delivery. For a listing without repetitions of files that exist, the cycle returns;
  when it flushes, every listed file whose reading and removal do not fail is gone from
  the queue, whatever the delivery attempts return: the queue after the cycle is the
  same for every delivery capability. Delivery is attempted at most 5 times, it succeeds
  exactly when one of the attempts 0..4 does, and after 5 failures the entries of the
  batch have been deleted all the same. A cycle that does not flush leaves the queue
  unchanged, and files outside the listing are never touched.
\<close>

theorem C1_entries_deleted_when_flushed:
  assumes "distinct tag_files" and "set tag_files \<subseteq> dom fs"
  shows "\<exists>r. monitor_cycle env clock deliver tag_files fs = Inr r \<and>
     (flushed r \<longrightarrow>
        (\<forall>p\<in>set tag_files. \<not> read_fails env p \<and> \<not> remove_fails env p \<longrightarrow> queue_after r p = None) \<and>
        delivered r = (\<exists>i<5. deliver i) \<and> attempts_made r \<le> 5 \<and>
        (\<not> delivered r \<longrightarrow> attempts_made r = 5)) \<and>
     (\<not> flushed r \<longrightarrow> queue_after r = fs \<and> attempts_made r = 0) \<and>
     (\<forall>p. p \<notin> set tag_files \<longrightarrow> queue_after r p = fs p) \<and>
     (\<forall>deliver'. \<exists>r'. monitor_cycle env clock deliver' tag_files fs = Inr r' \<and>
        flushed r' = flushed r \<and> queue_after r' = queue_after r)"
proof -
  obtain emit where emit: "emit_for fs clock 0 tag_files False = Inr emit"
    using emit_for_total [OF assms(2)] by blast
  show ?thesis
  proof (cases "tag_files \<noteq> [] \<and> emit")
    case False
    then show ?thesis using emit by (auto simp: monitor_cycle_def)
  next
    case True
    obtain fs' body total where comp: "compose_for env tag_files fs [] 0 = Inr (fs', body, total)"
      using compose_for_total [OF assms, of env "[]" 0] by (metis prod_cases3)
    note del = compose_for_deletes [OF comp]
    have cyc: "monitor_cycle env clock d tag_files fs =
        Inr \<lparr>queue_after = fs', flushed = True, report_rows = body, tag_count = total,
             delivered = fst (send_for d [0..<5] 0 0),
             attempts_made = fst (snd (send_for d [0..<5] 0 0))\<rparr>" for d
      using True emit comp by (simp add: monitor_cycle_def split: prod.splits)
    obtain sent n s where sf: "send_for deliver [0..<5] 0 0 = (sent, n, s)"
      by (metis prod_cases3)
    from send_for_result [OF sf]
    have snd: "sent = (\<exists>i<5. deliver i)" "n \<le> 5" "\<not> sent \<longrightarrow> n = 5"
      by auto
    show ?thesis
      using del snd sf by (simp add: cyc)
  qed
qed

theorem C1_entries_deleted_when_flushed_witness:
  "\<exists>r. monitor_cycle \<lparr>read_fails = (\<lambda>p. False), remove_fails = (\<lambda>p. False)\<rparr>
     (\<lambda>k. 1762000400) (\<lambda>i. False)
     [''/dev/shm/1762000000.0-0.tag'']
     [''/dev/shm/1762000000.0-0.tag'' \<mapsto> (1762000000, ''ABCD 123'' @ [CHR 0x0A])] = Inr r
    \<and> flushed r \<and> queue_after r ''/dev/shm/1762000000.0-0.tag'' = None
    \<and> \<not> delivered r \<and> attempts_made r = 5"
proof -
  let ?p = "''/dev/shm/1762000000.0-0.tag''"
  let ?fs = "[?p \<mapsto> (1762000000::real, ''ABCD 123'' @ [CHR 0x0A])]"
  let ?env = "\<lparr>read_fails = (\<lambda>p. False), remove_fails = (\<lambda>p. False)\<rparr>"
  have d: "distinct [?p]" by simp
  have s: "set [?p] \<subseteq> dom ?fs" by simp
  obtain r where r: "monitor_cycle ?env (\<lambda>k. 1762000400) (\<lambda>i. False) [?p] ?fs = Inr r"
    and f: "flushed r \<longrightarrow>
        (\<forall>p\<in>set [?p]. \<not> read_fails ?env p \<and> \<not> remove_fails ?env p \<longrightarrow> queue_after r p = None) \<and>
        delivered r = (\<exists>i<5. (\<lambda>i. False) i) \<and> attempts_made r \<le> 5 \<and>
        (\<not> delivered r \<longrightarrow> attempts_made r = 5)"
    using C1_entries_deleted_when_flushed [OF d s, of ?env "\<lambda>k. 1762000400" "\<lambda>i. False"] by blast
  have "flushed r" using r by (auto simp: monitor_cycle_def split: sum.splits prod.splits if_splits)
  with f r show ?thesis by simp
qed

subsection \<open>C2: the flush decision\<close>

text \<open>
  C2 (the code departs from the claim): a queue of one entry aged 10 seconds and one
  aged 400 seconds. Listed with the fresh entry first, the loop of lines 80-87 ends with
  \<open>emit = True\<close>, and the cycle flushes both entries into one report, although one of
  them is younger than 300 seconds; listed the other way round, the loop ends with
  \<open>emit = False\<close>. \<open>emit\<close> is assigned in every iteration, so the last file
  listed decides alone (\<open>emit_for_last\<close>), against the comments of lines 76 and 90.
\<close>

theorem C2_fresh_entry_listed_first_is_flushed:
  "emit_for [''/dev/shm/1762000390.0-0.tag'' \<mapsto> (1762000390, ''ABCD 123'' @ [CHR 0x0A]),
             ''/dev/shm/1762000000.0-0.tag'' \<mapsto> (1762000000, ''WXYZ 456'' @ [CHR 0x0A])]
     (\<lambda>k. 1762000400) 0
     [''/dev/shm/1762000390.0-0.tag'', ''/dev/shm/1762000000.0-0.tag''] False = Inr True
  \<and> monitor_cycle \<lparr>read_fails = (\<lambda>p. False), remove_fails = (\<lambda>p. False)\<rparr>
       (\<lambda>k. 1762000400) (\<lambda>i. True)
       [''/dev/shm/1762000390.0-0.tag'', ''/dev/shm/1762000000.0-0.tag'']
       [''/dev/shm/1762000390.0-0.tag'' \<mapsto> (1762000390, ''ABCD 123'' @ [CHR 0x0A]),
        ''/dev/shm/1762000000.0-0.tag'' \<mapsto> (1762000000, ''WXYZ 456'' @ [CHR 0x0A])]
     = Inr \<lparr>queue_after = Map.empty, flushed = True,
            report_rows = [(1762000390, ''ABCD 123''), (1762000000, ''WXYZ 456'')],
            tag_count = 2, delivered = True, attempts_made = 1\<rparr>
  \<and> emit_for [''/dev/shm/1762000390.0-0.tag'' \<mapsto> (1762000390, ''ABCD 123'' @ [CHR 0x0A]),
             ''/dev/shm/1762000000.0-0.tag'' \<mapsto> (1762000000, ''WXYZ 456'' @ [CHR 0x0A])]
     (\<lambda>k. 1762000400) 0
     [''/dev/shm/1762000000.0-0.tag'', ''/dev/shm/1762000390.0-0.tag''] False = Inr False"
  by (simp add: monitor_cycle_def process_tag_file_def strip_def is_space_def upt_rec)

subsection \<open>C3: the unit number\<close>

text \<open>
  C3 (as stated, refuted): the unit number would always fit in 19 bits, that is lie in
  0..524287. Bits 26 to 45 are 20 bits; with bit 26 set alone the unit number is
  \<open>2^19 = 524288\<close>.
\<close>

theorem C3_unit_number_needs_20_bits_counterexample:
  "car_number [0, 0, 0, 0x20, 0, 0] = Inr 524288"
  by (simp add: car_number_def to_bit_array_def byte_bits_def bits_to_int_def upt_rec)

text \<open>
  C3 (amended): for every unpacked byte sequence of at least 6 bytes, the unit number is
  the value of bits 26 to 45 inclusive (bit 0 the most significant bit of the first
  byte) read as a big-endian unsigned integer; for a shorter sequence, which does not
  hold bit 45, it is 0. It always fits in 20 bits, that is lies in 0..1048575, and
  \<open>car_number\<close> never raises.
\<close>

theorem C3_unit_number:
  "\<exists>v. car_number input_bytes = Inr v \<and> 0 \<le> v \<and> v \<le> 1048575 \<and>
     v = (if 6 \<le> length input_bytes
          then be_value (map (msb_first_bit input_bytes) [26..<46]) else 0)"
proof (cases "6 \<le> length input_bytes")
  case True
  then have len: "26 + 20 \<le> 8 * length input_bytes" by simp
  then have "(46::nat) \<le> length (to_bit_array input_bytes)"
    by (simp add: length_to_bit_array)
  then have "bits_to_int (to_bit_array input_bytes) 26 46 =
      Inr (be_value (take (46 - 26) (drop 26 (to_bit_array input_bytes))))"
    by (intro bits_to_int_value) simp_all
  also have "take (46 - 26) (drop 26 (to_bit_array input_bytes)) =
      map (msb_first_bit input_bytes) [26..<46]"
    using slice_of_bit_array [OF len] by simp
  finally have cn: "car_number input_bytes =
      Inr (be_value (map (msb_first_bit input_bytes) [26..<46]))"
    by (simp add: car_number_def)
  have "length (map (msb_first_bit input_bytes) [26..<46]) = 20" by simp
  then have "be_value (map (msb_first_bit input_bytes) [26..<46]) < 2 ^ 20"
    using be_value_less [of "map (msb_first_bit input_bytes) [26..<46]"] by (simp only:)
  then have "be_value (map (msb_first_bit input_bytes) [26..<46]) \<le> 1048575" by simp
  then show ?thesis using cn True be_value_nonneg by simp
next
  case False
  then have "length (to_bit_array input_bytes) < 46" by (simp add: length_to_bit_array)
  then have "car_number input_bytes = Inr 0"
    by (simp add: car_number_def bits_to_int_def)
  then show ?thesis using False by simp
qed

theorem C3_unit_number_witness:
  "car_number [0, 0, 0, 0x20, 0, 0] =
     Inr (be_value (map (msb_first_bit [0, 0, 0, 0x20, 0, 0]) [26..<46]))
   \<and> car_number [0xFF, 0xFF, 0xFF] = Inr 0"
  using C3_unit_number [of "[0, 0, 0, 0x20, 0, 0]"] C3_unit_number [of "[0xFF, 0xFF, 0xFF]"]
  by auto

subsection \<open>C4: the audit log\<close>

text \<open>
  C4 (as stated, refuted): a decoded tag equal to \<open>last_tag\<close> would produce no
  audit-log line. Here \<open>last_tag\<close> is \<open>ABCD 123\<close>, the same tag is decoded again, and
  a line is appended to the log.
\<close>

theorem C4_duplicate_is_logged_counterexample:
  "tags_log (store_tag ''1762000000.5'' 0 ''ABCD 123''
      \<lparr>last_tag = ''ABCD 123'', tags_log = [], shm_files = []\<rparr>)
    = [''1762000000.5,ABCD 123'' @ [CHR 0x0A]]"
  by (simp add: store_tag_def)

text \<open>
  C4 (amended): an audit-log line (timestamp, comma, decoded tag text) is appended for
  every decoded observation, duplicate or not. A decoded tag equal to \<open>last_tag\<close>
  produces exactly one audit-log line and no queue entry; a changed tag produces exactly
  one audit-log line and exactly one queue entry.
\<close>

theorem C4_every_observation_is_logged:
  "tags_log (store_tag last_read i current_tag st) =
     tags_log st @ [last_read @ '','' @ current_tag @ [CHR 0x0A]]
   \<and> shm_files (store_tag last_read i current_tag st) =
     (if last_tag st = current_tag then shm_files st
      else shm_files st @
        [(''/dev/shm/'' @ last_read @ ''-'' @ str_nat i @ ''.tag'', current_tag @ [CHR 0x0A])])"
  by (simp add: store_tag_def Let_def)

subsection \<open>C5: a known input of the bit codec\<close>

text \<open>
  C5 (as stated, refuted): the codec applied to \<open>[0x01, 0x02, 0x03]\<close> would return
  \<open>[0x04, 0x30]\<close>. The code does not return that list.
\<close>

theorem C5_unpack_known_input_counterexample:
  "unpack_6bit_to_8bit [0x01, 0x02, 0x03] \<noteq> [0x04, 0x30]"
  by (simp add: unpack_6bit_to_8bit_def unpack_while.simps)

text \<open>
  C5 (amended): the codec applied to the 3-byte input \<open>[0x01, 0x02, 0x03]\<close>, whose bit
  stream is \<open>000001 000010 000011\<close>, returns the 2-byte output \<open>[0x04, 0x20]\<close>
  (\<open>00000100 00100000\<close>); the 2 trailing bits \<open>11\<close> are discarded.
\<close>

theorem C5_unpack_known_input:
  "unpack_6bit_to_8bit [0x01, 0x02, 0x03] = [0x04, 0x20]"
  by (simp add: unpack_6bit_to_8bit_def unpack_while.simps)

subsection \<open>C6: the base-27 digits\<close>

text \<open>
  C6: for every value \<open>V\<close> (so for every value of the stated range), the digits
  \<open>n1 = V div 27^3\<close>, \<open>n2 = r1 div 27^2\<close>, \<open>n3 = r2 div 27\<close>, \<open>n4 = r2 - n3*27\<close>
  that \<open>car_owner\<close> computes satisfy \<open>n1*27^3 + n2*27^2 + n3*27 + n4 = V\<close>.
\<close>

theorem C6_base27_round_trip:
  "case owner_digits V of
     (n1, n2, n3, n4) \<Rightarrow> n1 * 27 ^ 3 + n2 * 27 ^ 2 + n3 * 27 + n4 = V"
  by (simp add: owner_digits_def Let_def)

subsection \<open>C7: the output of the bit codec\<close>

text \<open>
  C7: for every input byte sequence, the output of the codec is the bit stream of the low
  6 bits of each input byte, most significant bit first, cut into 8-bit groups with the
  trailing bits short of a full byte dropped; so its length is
  \<open>floor(len(input) * 6 / 8)\<close>. The codec is a total function: it raises nothing.
\<close>

theorem C7_unpack_regroups_bits:
  "unpack_6bit_to_8bit input_bytes = repack_spec input_bytes
   \<and> length (unpack_6bit_to_8bit input_bytes) = (length input_bytes * 6) div 8"
proof -
  have "snd (snd (unpack_for input_bytes (be_value []) (length ([]::bool list)) [])) =
     [] @ map (\<lambda>g. word_of_int (be_value g)) (groups_of_8 ([] @ bit_stream6 input_bytes))"
    by (rule unpack_for_spec) simp
  then have eq: "unpack_6bit_to_8bit input_bytes = repack_spec input_bytes"
    by (simp add: unpack_6bit_to_8bit_def repack_spec_def be_value_Nil case_prod_unfold)
  have "length (repack_spec input_bytes) = (length input_bytes * 6) div 8"
    by (simp add: repack_spec_def length_groups_of_8 length_bit_stream6 mult.commute)
  with eq show ?thesis by simp
qed

subsection \<open>C8: short frames\<close>

text \<open>
  C8: \<open>bits_to_int\<close> never raises. When the range is empty or reaches past the end of
  the array the result is 0, and over an all-zero array of any length the result is 0
  for every range.
\<close>

theorem C8_bits_to_int_tolerant:
  "(start_bit \<ge> end_bit \<or> end_bit > length bit_array \<longrightarrow>
      bits_to_int bit_array start_bit end_bit = Inr 0)
  \<and> bits_to_int (replicate n False) start_bit end_bit = Inr 0
  \<and> (\<exists>v. bits_to_int bit_array start_bit end_bit = Inr v)"
proof (intro conjI impI)
  assume "start_bit \<ge> end_bit \<or> end_bit > length bit_array"
  then show "bits_to_int bit_array start_bit end_bit = Inr 0" by (simp add: bits_to_int_def)
next
  show "bits_to_int (replicate n False) start_bit end_bit = Inr 0"
  proof (cases "start_bit \<ge> end_bit \<or> end_bit > n")
    case True
    then show ?thesis by (simp add: bits_to_int_def)
  next
    case False
    then have "\<forall>i\<in>set [0..<end_bit - start_bit]. start_bit + i < n" by auto
    from bits_to_int_for_zeros [OF this] False
    show ?thesis by (simp add: bits_to_int_def Let_def)
  qed
next
  show "\<exists>v. bits_to_int bit_array start_bit end_bit = Inr v"
    using bits_to_int_no_error by blast
qed

theorem C8_bits_to_int_tolerant_witness:
  "bits_to_int [True, True, True] 1 5 = Inr 0 \<and> bits_to_int [True, True, True] 2 2 = Inr 0
   \<and> bits_to_int (replicate 4 False) 1 3 = Inr 0"
proof -
  have a: "(1::nat) \<ge> 5 \<or> 5 > length [True, True, True]" by simp
  have b: "(2::nat) \<ge> 2 \<or> 2 > length [True, True, True]" by simp
  show ?thesis
    using C8_bits_to_int_tolerant
        [where start_bit = 1 and end_bit = 5 and bit_array = "[True, True, True]" and n = 4] a
      C8_bits_to_int_tolerant
        [where start_bit = 2 and end_bit = 2 and bit_array = "[True, True, True]" and n = 4] b
      C8_bits_to_int_tolerant
        [where start_bit = 1 and end_bit = 3 and bit_array = "[True, True, True]" and n = 4]
    by blast
qed

subsection \<open>C9: suppression of adjacent duplicates\<close>

text \<open>
  C9 (as stated, refuted): starting from any \<open>last_tag\<close>, two consecutive identical
  decoded tags would produce exactly one queue entry. Starting from a \<open>last_tag\<close> equal
  to the tag they produce none.
\<close>

theorem C9_two_identical_tags_counterexample:
  "length (shm_files (store_tag ''1762000001.5'' 0 ''ABCD 123''
     (store_tag ''1762000000.5'' 0 ''ABCD 123''
        \<lparr>last_tag = ''ABCD 123'', tags_log = [], shm_files = []\<rparr>))) = 0"
  by (simp add: store_tag_def)

text \<open>
  C9 (amended): starting from any \<open>last_tag\<close> different from the tag (as the initial
  empty \<open>last_tag\<close> is), two consecutive identical decoded tags produce exactly one
  queue entry; from any \<open>last_tag\<close> the second of the two is suppressed and creates no
  entry; a different tag followed by the original tag again produces two more entries.
  Each change from the immediately preceding tag creates exactly one new entry and
  updates \<open>last_tag\<close>.
\<close>

theorem C9_adjacent_duplicates:
  "(last_tag st \<noteq> a \<longrightarrow>
      length (shm_files (store_tag r2 i2 a (store_tag r1 i1 a st))) = length (shm_files st) + 1)
   \<and> shm_files (store_tag r2 i2 a (store_tag r1 i1 a st)) = shm_files (store_tag r1 i1 a st)
   \<and> (b \<noteq> a \<longrightarrow>
      length (shm_files (store_tag r3 i3 a (store_tag r2 i2 b (store_tag r1 i1 a st)))) =
        length (shm_files (store_tag r1 i1 a st)) + 2)
   \<and> (last_tag st \<noteq> a \<longrightarrow>
      length (shm_files (store_tag r1 i1 a st)) = length (shm_files st) + 1)
   \<and> last_tag (store_tag r1 i1 a st) = a"
  by (simp add: store_tag_def Let_def)

theorem C9_adjacent_duplicates_witness:
  "length (shm_files (store_tag ''2.5'' 0 ''ABCD 123'' (store_tag ''1.5'' 0 ''ABCD 123''
     initial_state))) = length (shm_files initial_state) + 1
   \<and> length (shm_files (store_tag ''3.5'' 0 ''ABCD 123'' (store_tag ''2.5'' 0 ''WXYZ 456''
        (store_tag ''1.5'' 0 ''ABCD 123'' initial_state)))) =
      length (shm_files (store_tag ''1.5'' 0 ''ABCD 123'' initial_state)) + 2"
proof -
  have a: "last_tag initial_state \<noteq> ''ABCD 123''" by (simp add: initial_state_def)
  have b: "''WXYZ 456'' \<noteq> ''ABCD 123''" by simp
  show ?thesis
    using C9_adjacent_duplicates [of initial_state "''ABCD 123''" "''2.5''" 0 "''1.5''" 0
        "''WXYZ 456''" "''3.5''" 0] a
      C9_adjacent_duplicates [of initial_state "''ABCD 123''" "''2.5''" 0 "''1.5''" 0
        "''WXYZ 456''" "''3.5''" 0] b
    by blast
qed

subsection \<open>C10: the owner mark\<close>

text \<open>
  C10: \<open>car_owner\<close> is total. For every byte sequence, the empty one and those too
  short to cover bits 7 to 25 included, it returns, without raising, a string of
  exactly 4 characters, each an uppercase letter, a space or \<open>?\<close>.
\<close>

theorem C10_car_owner_total:
  "\<exists>s. car_owner input_bytes = Inr s \<and> length s = 4 \<and> list_all owner_char s"
proof -
  obtain v where "bits_to_int (to_bit_array input_bytes) 7 26 = Inr v"
    using bits_to_int_no_error by blast
  then show ?thesis
    by (simp add: car_owner_def Let_def split: prod.splits
        add: decode_c1_owner_char decode_c2_c4_owner_char)
qed


end
